theory Spec2Isabelle
  imports Main
begin

section \<open>Articles (article.py)\<close>

text \<open>
  The frozen dataclass \<open>Article\<close> of \<open>article.py\<close>: four text fields and the optional
  back-reference \<open>origin\<close> to another article (default \<open>None\<close>).
\<close>

datatype article =
  Article (title: string) (authors: "string list") (summary: string) (url: string)
    (origin: "article option")

text \<open>\<open>dataclasses.replace(result, origin=article)\<close>: a copy with one field changed.\<close>

definition replace_origin :: "article \<Rightarrow> article \<Rightarrow> article" where
  "replace_origin result article =
     Article (title result) (authors result) (summary result) (url result) (Some article)"

section \<open>The environment of \<open>amap\<close>\<close>

text \<open>
  Time is counted in milliseconds on one clock, and the seconds of \<open>INTERVAL\<close>, of the
  timeout and of the periods are whole milliseconds. \<open>INTERVAL = 0.1\<close> seconds is the
  pause between two attempts of the admission loop.
\<close>

definition INTERVAL :: nat where
  "INTERVAL = 100"

text \<open>
  The exceptions that matter to \<open>amap\<close>: \<open>asyncio.TimeoutError\<close>, which the runner
  catches, the \<open>ValueError\<close> of the rate-limit parser, and any other exception,
  identified by its message.
\<close>

datatype error = TimeoutError | ValueError | OtherError string

text \<open>
  What a call \<open>func(article)\<close> does. A synchronous \<open>func\<close> occupies the event loop for
  some time and then returns an article or raises. Otherwise \<open>func\<close> returns an
  awaitable: one that completes, with an article or an exception, after having been
  suspended for some time, or one that never completes.
\<close>

datatype response =
    Return nat article
  | Raise nat error
  | Awaitable nat "error + article"
  | Pending

type_synonym func = "article \<Rightarrow> response"

text \<open>
  A parsed rate limit (\<open>RateLimitItem\<close> of the \<open>limits\<close> package): \<open>amount\<close> operations
  per window of \<open>period\<close> milliseconds. The parser \<open>limits.parse\<close> is outside the
  repository; \<open>amap\<close> takes it as the parameter \<open>parse\<close>, where \<open>None\<close> stands for the
  \<open>ValueError\<close> it raises on a string it cannot parse.
\<close>

record rate_limit =
  amount :: nat
  period :: nat

type_synonym parser = "string \<Rightarrow> rate_limit option"

text \<open>
  Modelled from the spec: the moving-window rate limiter (\<open>MovingWindowRateLimiter.hit\<close>
  over a \<open>MemoryStorage\<close>, both of the \<open>limits\<close> package and not part of the sources).
  The storage holds the timestamps of the admitted operations, newest first. A hit first
  drops the timestamps older than \<open>now - period\<close>; it is admitted, and its timestamp
  recorded, iff fewer than \<open>amount\<close> timestamps remain; otherwise it is denied and
  nothing is recorded.
\<close>

definition hit :: "rate_limit \<Rightarrow> nat \<Rightarrow> nat list \<Rightarrow> bool \<times> nat list" where
  "hit rl t evs =
     (let live = filter (\<lambda>e. t \<le> e + period rl) evs
      in if length live < amount rl then (True, t # live) else (False, live))"

section \<open>The event loop of \<open>amap\<close>\<close>

text \<open>
  \<open>gather(*map(runner, articles))\<close> starts one runner per article. A runner is in its
  admission loop (\<open>Admission article t\<close>: its next \<open>hit\<close> is due at time \<open>t\<close>), or
  suspended in \<open>wait_for\<close> (\<open>Waiting article t r\<close>: it resumes at time \<open>t\<close>, where
  \<open>wait_for\<close> returns the article \<open>r\<close> or raises the exception \<open>r\<close>), or it has returned
  (\<open>Done result\<close>).
\<close>

datatype task =
    Admission article nat
  | Waiting article nat "error + article"
  | Done article

text \<open>
  The state of one run: the clock, the storage of the rate limiter, the runners in the
  order of the input, and two logs for observation: the times of the admitted hits and
  the arguments of the calls of \<open>func\<close>, both newest first.
\<close>

record loop_state =
  now :: nat
  events :: "nat list"
  tasks :: "task list"
  hits :: "nat list"
  calls :: "article list"

text \<open>
  The coroutine \<open>afunc(article)\<close> calls \<open>func\<close> and gives its result the back-reference
  to the article, after awaiting the result if it is an awaitable. As a response: it
  occupies the loop or is suspended as \<open>func\<close> is, and returns the changed copy.
\<close>

definition afunc_result :: "article \<Rightarrow> error + article \<Rightarrow> error + article" where
  "afunc_result article r =
     (case r of Inr result \<Rightarrow> Inr (replace_origin result article) | Inl e \<Rightarrow> Inl e)"

definition afunc :: "func \<Rightarrow> article \<Rightarrow> response" where
  "afunc func article =
     (case func article of
        Return d result \<Rightarrow> Return d (replace_origin result article)
      | Raise d e \<Rightarrow> Raise d e
      | Awaitable d r \<Rightarrow> Awaitable d (afunc_result article r)
      | Pending \<Rightarrow> Pending)"

text \<open>
  \<open>wait_for(coro, timeout)\<close> of \<open>asyncio\<close>, begun at time \<open>t\<close>: the clock when the caller
  is suspended or goes on, the time at which the caller resumes if it is suspended, and
  what \<open>wait_for\<close> then returns or raises. With \<open>timeout <= 0\<close>, \<open>wait_for\<close> cancels the
  coroutine before it has started and raises \<open>TimeoutError\<close>. Otherwise the coroutine
  starts in the same turn of the loop (as \<open>wait_for\<close> runs it since Python 3.12, in the
  task of its caller). A coroutine that does not suspend runs to its end whatever the
  timeout, the loop being occupied. A suspended coroutine is raced against the timeout:
  \<open>wait_for\<close> returns its outcome if it completes before the timeout has elapsed, and
  cancels it and raises \<open>TimeoutError\<close> when the timeout has elapsed otherwise.
\<close>

definition wait_for :: "response \<Rightarrow> int \<Rightarrow> nat \<Rightarrow> nat \<times> nat option \<times> (error + article)" where
  "wait_for coro timeout t =
     (if timeout \<le> 0 then (t, None, Inl TimeoutError)
      else
        (case coro of
           Return d result \<Rightarrow> (t + d, None, Inr result)
         | Raise d e \<Rightarrow> (t + d, None, Inl e)
         | Awaitable d r \<Rightarrow>
             (if int d < timeout then (t, Some (t + d), r)
              else (t, Some (t + nat timeout), Inl TimeoutError))
         | Pending \<Rightarrow> (t, Some (t + nat timeout), Inl TimeoutError)))"

text \<open>
  The \<open>try\<close> statement of \<open>runner\<close>, entered at time \<open>t\<close>:
  \<open>return await wait_for(afunc(article), timeout)\<close>, where the clause
  \<open>except TimeoutError\<close> returns the article itself instead. The result is the new clock,
  the new state of the runner and whether \<open>func\<close> has been called, or the exception that
  leaves the runner.
\<close>

definition except_timeout :: "article \<Rightarrow> error + article \<Rightarrow> error + article" where
  "except_timeout article r =
     (case r of
        Inr result \<Rightarrow> Inr result
      | Inl e \<Rightarrow> if e = TimeoutError then Inr article else Inl e)"

definition invoke :: "func \<Rightarrow> int \<Rightarrow> article \<Rightarrow> nat \<Rightarrow> error + (nat \<times> task \<times> bool)" where
  "invoke func timeout article t =
     (case wait_for (afunc func article) timeout t of
        (t', Some wake, r) \<Rightarrow> Inr (t', Waiting article wake r, 0 < timeout)
      | (t', None, r) \<Rightarrow>
          (case except_timeout article r of
             Inl e \<Rightarrow> Inl e
           | Inr a \<Rightarrow> Inr (t', Done a, 0 < timeout)))"

text \<open>
  \<open>runner\<close>, as one activation of the \<open>i\<close>-th runner at the current time. In the
  admission loop (\<open>while not await rate_limiter.hit(rate_limit): await sleep(INTERVAL)\<close>),
  a denied hit sends the runner to sleep for \<open>INTERVAL\<close>; an admitted hit leaves the loop
  and enters the \<open>try\<close> statement. A runner suspended in \<open>wait_for\<close> resumes with the
  outcome of \<open>wait_for\<close>. An exception other than \<open>TimeoutError\<close> leaves the runner.
\<close>

definition runner :: "rate_limit \<Rightarrow> func \<Rightarrow> int \<Rightarrow> nat \<Rightarrow> loop_state \<Rightarrow> error + loop_state" where
  "runner rl func timeout i st =
     (case tasks st ! i of
        Admission article w \<Rightarrow>
          (case hit rl (now st) (events st) of
             (False, evs) \<Rightarrow>
               Inr (st\<lparr>events := evs,
                       tasks := (tasks st)[i := Admission article (now st + INTERVAL)]\<rparr>)
           | (True, evs) \<Rightarrow>
               (case invoke func timeout article (now st) of
                  Inl e \<Rightarrow> Inl e
                | Inr (t, task, called) \<Rightarrow>
                    Inr (st\<lparr>now := t, events := evs,
                            tasks := (tasks st)[i := task],
                            hits := now st # hits st,
                            calls := (if called then article # calls st else calls st)\<rparr>)))
      | Waiting article w r \<Rightarrow>
          (case except_timeout article r of
             Inl e \<Rightarrow> Inl e
           | Inr a \<Rightarrow> Inr (st\<lparr>tasks := (tasks st)[i := Done a]\<rparr>))
      | Done a \<Rightarrow> Inr st)"

text \<open>
  The event loop activates the runner whose wake-up time is the earliest, the first of
  them in input order: \<open>earliest\<close> gives that time and the index of the runner, or
  \<open>None\<close> when every runner has returned.
\<close>

fun due :: "task \<Rightarrow> nat option" where
  "due (Admission article w) = Some w"
| "due (Waiting article w r) = Some w"
| "due (Done a) = None"

fun earliest :: "task list \<Rightarrow> (nat \<times> nat) option" where
  "earliest [] = None"
| "earliest (t # ts) =
     (case due t of
        None \<Rightarrow> map_option (\<lambda>(w, j). (w, Suc j)) (earliest ts)
      | Some w \<Rightarrow>
          (case earliest ts of
             None \<Rightarrow> Some (w, 0)
           | Some (w', j) \<Rightarrow> if w \<le> w' then Some (w, 0) else Some (w', Suc j)))"

text \<open>\<open>list(await gather(...))\<close>: the results of the runners, in the order of the input.\<close>

fun returned :: "task \<Rightarrow> article list" where
  "returned (Done a) = [a]"
| "returned (Admission article w) = []"
| "returned (Waiting article w r) = []"

definition results :: "task list \<Rightarrow> article list" where
  "results ts = concat (map returned ts)"

text \<open>
  One turn of the event loop. When every runner has returned, \<open>gather\<close> is complete
  and the run ends with the list of results. Otherwise the clock moves on to the
  wake-up time of the earliest runner (it never moves back) and that runner is
  activated; an exception that leaves it ends the run, since \<open>gather\<close> passes the first
  exception on at once and \<open>run\<close> raises it.
\<close>

definition activate ::
  "rate_limit \<Rightarrow> func \<Rightarrow> int \<Rightarrow> loop_state
     \<Rightarrow> ((error + article list) \<times> loop_state) + loop_state"
where
  "activate rl func timeout st =
     (case earliest (tasks st) of
        None \<Rightarrow> Inl (Inr (results (tasks st)), st)
      | Some (w, i) \<Rightarrow>
          (case runner rl func timeout i (st\<lparr>now := max (now st) w\<rparr>) of
             Inl e \<Rightarrow> Inl (Inl e, st\<lparr>now := max (now st) w\<rparr>)
           | Inr st' \<Rightarrow> Inr st'))"

text \<open>
  The loop turns until the run ends. A run that goes on forever has the value \<open>None\<close>.
\<close>

partial_function (option) run_loop ::
  "rate_limit \<Rightarrow> func \<Rightarrow> int \<Rightarrow> loop_state \<Rightarrow> ((error + article list) \<times> loop_state) option"
where
  "run_loop rl func timeout st =
     (case activate rl func timeout st of
        Inl final \<Rightarrow> Some final
      | Inr st' \<Rightarrow> run_loop rl func timeout st')"

text \<open>The state of the loop after \<open>n\<close> turns (the last state, if the run has ended before).\<close>

fun turns :: "nat \<Rightarrow> rate_limit \<Rightarrow> func \<Rightarrow> int \<Rightarrow> loop_state \<Rightarrow> loop_state" where
  "turns 0 rl func timeout st = st"
| "turns (Suc n) rl func timeout st =
     (case activate rl func timeout st of
        Inl (r, st') \<Rightarrow> st'
      | Inr st' \<Rightarrow> turns n rl func timeout st')"

declare run_loop.simps [code]

text \<open>
  \<open>UNLIMITED = parse("1000/second")\<close>, and \<open>main\<close>: a fresh storage, the rate limit
  (\<open>UNLIMITED\<close> when \<open>limit\<close> is \<open>None\<close>, parsed from \<open>limit\<close> otherwise, and in both
  cases before any runner exists), then the runners, all due at once. \<open>amap\<close> returns
  what \<open>main\<close> returns or raises (\<open>run(main())\<close>, called where no event loop is running);
  \<open>main\<close> also gives the last state of the loop.
\<close>

definition UNLIMITED :: "parser \<Rightarrow> rate_limit option" where
  "UNLIMITED parse = parse ''1000/second''"

definition initial :: "article list \<Rightarrow> loop_state" where
  "initial articles =
     \<lparr>now = 0, events = [], tasks = map (\<lambda>article. Admission article 0) articles,
      hits = [], calls = []\<rparr>"

definition rate_limit_of :: "parser \<Rightarrow> string option \<Rightarrow> rate_limit option" where
  "rate_limit_of parse limit = (case limit of None \<Rightarrow> UNLIMITED parse | Some s \<Rightarrow> parse s)"

definition main ::
  "parser \<Rightarrow> func \<Rightarrow> article list \<Rightarrow> string option \<Rightarrow> int
     \<Rightarrow> ((error + article list) \<times> loop_state) option"
where
  "main parse func articles limit timeout =
     (case rate_limit_of parse limit of
        None \<Rightarrow> Some (Inl ValueError, initial [])
      | Some rl \<Rightarrow> run_loop rl func timeout (initial articles))"

definition amap ::
  "parser \<Rightarrow> func \<Rightarrow> article list \<Rightarrow> string option \<Rightarrow> int \<Rightarrow> (error + article list) option"
where
  "amap parse func articles limit timeout =
     map_option fst (main parse func articles limit timeout)"

section \<open>Searching (search.py)\<close>

text \<open>
  \<open>SEP_PATTERN = compile(r"\n+\s*|\n*\s+")\<close> and \<open>SEP_REPL = " "\<close>. Characters are
  8-bit; \<open>\s\<close> matches the white space below code point 128, which is 9 to 13, 28 to
  31 and the space.
\<close>

definition newline :: char where
  "newline = CHR 0x0A"














text \<open>
  \<open>format_text\<close>: the parameter \<open>latex_to_text\<close> stands for \<open>DETEXER.latex_to_text\<close> of
  the \<open>pylatexenc\<close> package, which returns a text or raises an exception. The result is
  what \<open>format_text\<close> returns or raises, with the warnings it has logged (each warning
  with the text it is about).
\<close>

datatype log_record = Warning string

definition format_text ::
  "(string \<Rightarrow> error + string) \<Rightarrow> string \<Rightarrow> (error + string) \<times> log_record list"
where
  "format_text latex_to_text text_like =
     (case latex_to_text text_like of
        Inr text \<Rightarrow> (Inr text, [])
      | Inl e \<Rightarrow> (Inr text_like, [Warning text_like]))"



definition assign_text :: "(string \<Rightarrow> error + string) \<Rightarrow> article \<Rightarrow> error + article" where
  "assign_text latex_to_text article =
     (case fst (format_text latex_to_text (title article)) of
        Inl e \<Rightarrow> Inl e
      | Inr t \<Rightarrow>
          (case fst (format_text latex_to_text (summary article)) of
             Inl e \<Rightarrow> Inl e
           | Inr s \<Rightarrow> Inr (Article t (authors article) s (url article) (origin article))))"



section \<open>Instances for concrete runs\<close>

text \<open>
  The theorems below hold for every parser. Concrete runs need one: \<open>parse_plain\<close>
  reads the plain form \<open>count/unit\<close> of the notation of \<open>limits.parse\<close>
  (\<open>"3/second"\<close>, \<open>"1000/second"\<close>), where the count is a string of digits, read as it
  is, and the period is that of the unit in milliseconds. It is used only at strings of
  that form and at strings without a digit, which \<open>limits.parse\<close> rejects; the other
  spellings the package knows (\<open>"3 per second"\<close>, \<open>"3/2 minutes"\<close>, lists of limits) are
  not covered.
\<close>

definition digit :: "char \<Rightarrow> bool" where
  "digit c \<longleftrightarrow> c \<in> set ''0123456789''"

definition number :: "string \<Rightarrow> nat" where
  "number ds = foldl (\<lambda>n c. 10 * n + (of_char c - 48)) 0 ds"

definition granularity :: "string \<Rightarrow> nat option" where
  "granularity unit =
     (if unit = ''second'' then Some 1000
      else if unit = ''minute'' then Some 60000
      else if unit = ''hour'' then Some 3600000
      else if unit = ''day'' then Some 86400000
      else if unit = ''month'' then Some 2592000000
      else if unit = ''year'' then Some 31104000000
      else None)"

definition parse_plain :: parser where
  "parse_plain s =
     (let ds = takeWhile digit s
      in if ds = [] then None
         else
           (case dropWhile digit s of
              [] \<Rightarrow> None
            | c # unit \<Rightarrow>
                if c = CHR ''/''
                then map_option (\<lambda>p. \<lparr>amount = number ds, period = p\<rparr>) (granularity unit)
                else None))"

text \<open>Two articles, and a change a mapped function may make to an article.\<close>

definition paper :: article where
  "paper =
     Article ''On maps'' [''A. Author''] ''We map.'' ''http://arxiv.org/abs/0000.00001v1'' None"

definition review :: article where
  "review =
     Article ''A review'' [''B. Author'', ''C. Author''] ''We review.''
       ''http://arxiv.org/abs/0000.00002v1'' None"

definition summarized :: "article \<Rightarrow> article" where
  "summarized a = Article (title a) (authors a) ''Short.'' (url a) (origin a)"

text \<open>
  Functions to map: a coroutine function that is suspended for 100 ms, one that is
  suspended for a second, a synchronous function that takes five seconds, a coroutine
  function that is slower on \<open>paper\<close> than on other articles, one that is quick on
  \<open>paper\<close> and never completes otherwise, and a synchronous function that raises on
  \<open>review\<close>.
\<close>

definition quick :: func where
  "quick a = Awaitable 100 (Inr (summarized a))"



definition uneven :: func where
  "uneven a =
     (if a = paper then Awaitable 400 (Inr (summarized a)) else Awaitable 100 (Inr (summarized a)))"




definition backslash :: char where
  "backslash = CHR 0x5C"



fun linebreaks :: "string \<Rightarrow> string" where
  "linebreaks (a # b # cs) =
     (if a = backslash \<and> b = backslash then newline # linebreaks cs
      else a # linebreaks (b # cs))"
| "linebreaks cs = cs"

definition linebreak_to_text :: "string \<Rightarrow> error + string" where
  "linebreak_to_text s = Inr (linebreaks s)"

definition broken_to_text :: "string \<Rightarrow> error + string" where
  "broken_to_text s = Inl (OtherError ''cannot parse'')"

section \<open>Notions for the proofs\<close>

text \<open>
  What the runner of an article returns or raises once its hit is admitted: this depends
  on the function, the timeout and the article only.
\<close>

definition outcome :: "func \<Rightarrow> int \<Rightarrow> article \<Rightarrow> error + article" where
  "outcome func timeout article =
     (if timeout \<le> 0 then Inr article
      else
        (case func article of
           Return d result \<Rightarrow> Inr (replace_origin result article)
         | Raise d e \<Rightarrow> except_timeout article (Inl e)
         | Awaitable d r \<Rightarrow>
             (if int d < timeout then except_timeout article (afunc_result article r)
              else Inr article)
         | Pending \<Rightarrow> Inr article))"


text \<open>
  A runner agrees with its article when it still holds the article, or is suspended with
  the outcome of the article, or has returned it. A run is settled by a list of the
  outcomes of all articles, or by an exception that is the outcome of one of them.
\<close>

fun agrees :: "func \<Rightarrow> int \<Rightarrow> article \<Rightarrow> task \<Rightarrow> bool" where
  "agrees func timeout a (Admission article w) = (article = a)"
| "agrees func timeout a (Waiting article w r) =
     (article = a \<and> except_timeout a r = outcome func timeout a)"
| "agrees func timeout a (Done b) = (outcome func timeout a = Inr b)"

definition settled :: "func \<Rightarrow> int \<Rightarrow> article list \<Rightarrow> (error + article list) \<Rightarrow> bool" where
  "settled func timeout articles r =
     (case r of
        Inr rs \<Rightarrow> map Inr rs = map (outcome func timeout) articles
      | Inl e \<Rightarrow> (\<exists>i < length articles. outcome func timeout (articles ! i) = Inl e))"

text \<open>
  The measure of the loop: first the phases the runners still have before them, then,
  for the runners in the admission loop, the time left until every timestamp in the
  storage has left the window (with one interval to spare).
\<close>

fun phase :: "task \<Rightarrow> nat" where
  "phase (Admission article w) = 2"
| "phase (Waiting article w r) = 1"
| "phase (Done a) = 0"

definition horizon :: "rate_limit \<Rightarrow> nat list \<Rightarrow> nat" where
  "horizon rl evs = sum_list (map (\<lambda>e. e + period rl) evs)"

fun slack :: "nat \<Rightarrow> task \<Rightarrow> nat" where
  "slack H (Admission article w) = H + INTERVAL + 1 - w"
| "slack H (Waiting article w r) = 0"
| "slack H (Done a) = 0"

definition progress :: "rate_limit \<Rightarrow> loop_state \<Rightarrow> nat \<times> nat" where
  "progress rl st =
     (sum_list (map phase (tasks st)),
      sum_list (map (slack (horizon rl (events st))) (tasks st)))"

text \<open>
  The number of admitted hits in the window from \<open>s\<close> to \<open>s + p\<close>, both ends included.
  The invariant of the rate limiter: no hit lies in the future, the storage holds the
  hits that have not left the window at the last check, and no window holds more than
  \<open>amount\<close> hits.
\<close>

definition admitted_in :: "nat \<Rightarrow> nat \<Rightarrow> nat list \<Rightarrow> nat" where
  "admitted_in s p hs = length (filter (\<lambda>h. s \<le> h \<and> h \<le> s + p) hs)"

definition limited :: "rate_limit \<Rightarrow> loop_state \<Rightarrow> bool" where
  "limited rl st \<longleftrightarrow>
     (\<forall>h\<in>set (hits st). h \<le> now st) \<and>
     (\<exists>T \<le> now st. events st = filter (\<lambda>h. T \<le> h + period rl) (hits st)) \<and>
     (\<forall>s. admitted_in s (period rl) (hits st) \<le> amount rl)"

text \<open>Every runner that has left the admission loop has one admitted hit in the log.\<close>

fun admitted :: "task \<Rightarrow> nat" where
  "admitted (Admission article w) = 0"
| "admitted (Waiting article w r) = 1"
| "admitted (Done a) = 1"

definition counted :: "loop_state \<Rightarrow> bool" where
  "counted st \<longleftrightarrow> length (hits st) = sum_list (map admitted (tasks st))"

text \<open>
  A state in which every runner is in the admission loop, nothing has been admitted and
  the function has not been called.
\<close>

fun waiting_admission :: "task \<Rightarrow> bool" where
  "waiting_admission (Admission article w) = True"
| "waiting_admission (Waiting article w r) = False"
| "waiting_admission (Done a) = False"

definition starved :: "loop_state \<Rightarrow> bool" where
  "starved st \<longleftrightarrow>
     tasks st \<noteq> [] \<and> list_all waiting_admission (tasks st) \<and> calls st = [] \<and> hits st = []"


section \<open>Lemmas on the event loop\<close>

subsection \<open>The runners and their articles\<close>

text \<open>
  The earliest runner exists as long as some runner has not returned. Every activation
  keeps the runners in agreement with their articles, so that a run can only end in a way
  that is settled.
\<close>

lemma invoke_unfold:
  "invoke func timeout article t =
     (if timeout \<le> 0 then Inr (t, Done article, False)
      else
        (case func article of
           Return d result \<Rightarrow> Inr (t + d, Done (replace_origin result article), True)
         | Raise d e \<Rightarrow>
             (case except_timeout article (Inl e) of
                Inl e' \<Rightarrow> Inl e'
              | Inr a \<Rightarrow> Inr (t + d, Done a, True))
         | Awaitable d r \<Rightarrow>
             (if int d < timeout
              then Inr (t, Waiting article (t + d) (afunc_result article r), True)
              else Inr (t, Waiting article (t + nat timeout) (Inl TimeoutError), True))
         | Pending \<Rightarrow> Inr (t, Waiting article (t + nat timeout) (Inl TimeoutError), True)))"
  by (simp add: invoke_def wait_for_def afunc_def except_timeout_def split: response.splits)

lemma earliest_None_iff: "earliest ts = None \<longleftrightarrow> (\<forall>t\<in>set ts. due t = None)"
  by (induction ts) (auto split: option.splits)

lemma earliest_SomeD:
  "earliest ts = Some (w, i) \<Longrightarrow> i < length ts \<and> due (ts ! i) = Some w"
  by (induction ts arbitrary: w i) (auto split: option.splits if_splits)

lemma invoke_agrees:
  "invoke func timeout a t = Inr (t', task, c) \<Longrightarrow> agrees func timeout a task"
  by (auto simp: invoke_unfold outcome_def except_timeout_def split: if_splits response.splits sum.splits)

lemma invoke_raises:
  "invoke func timeout a t = Inl e \<Longrightarrow> outcome func timeout a = Inl e"
  by (auto simp: invoke_unfold outcome_def except_timeout_def split: if_splits response.splits sum.splits)

lemma list_all2_update_right:
  "list_all2 P xs ys \<Longrightarrow> i < length ys \<Longrightarrow> P (xs ! i) y \<Longrightarrow> list_all2 P xs (ys[i := y])"
  by (auto simp: list_all2_conv_all_nth nth_list_update)

lemma runner_agrees:
  assumes "runner rl func timeout i st = Inr st'" "i < length (tasks st)"
    "list_all2 (agrees func timeout) articles (tasks st)"
  shows "list_all2 (agrees func timeout) articles (tasks st')"
proof -
  have a: "agrees func timeout (articles ! i) (tasks st ! i)"
    using assms(2,3) by (simp add: list_all2_conv_all_nth)
  show ?thesis
  proof (cases "tasks st ! i")
    case (Admission article w)
    then show ?thesis using assms a
      by (auto simp: runner_def split: prod.splits bool.splits sum.splits
          intro!: list_all2_update_right dest: invoke_agrees)
  next
    case (Waiting article w r)
    then show ?thesis using assms a
      by (auto simp: runner_def split: prod.splits bool.splits sum.splits
          intro!: list_all2_update_right)
  next
    case (Done b)
    then show ?thesis using assms by (simp add: runner_def)
  qed
qed

lemma runner_raises:
  assumes "runner rl func timeout i st = Inl e" "i < length (tasks st)"
    "list_all2 (agrees func timeout) articles (tasks st)"
  shows "outcome func timeout (articles ! i) = Inl e"
proof -
  have a: "agrees func timeout (articles ! i) (tasks st ! i)"
    using assms(2,3) by (simp add: list_all2_conv_all_nth)
  show ?thesis using assms(1) a
    by (cases "tasks st ! i")
       (auto simp: runner_def split: prod.splits bool.splits sum.splits dest: invoke_raises)
qed

lemma activate_final:
  "activate rl func timeout st = Inl (Inr rs, st') \<Longrightarrow>
     st' = st \<and> rs = results (tasks st) \<and> (\<forall>t\<in>set (tasks st). due t = None)"
  by (auto simp: activate_def earliest_None_iff split: option.splits prod.splits sum.splits)

lemma activate_raise:
  "activate rl func timeout st = Inl (Inl e, st') \<Longrightarrow>
     \<exists>w i. earliest (tasks st) = Some (w, i) \<and> st' = st\<lparr>now := max (now st) w\<rparr>
       \<and> runner rl func timeout i st' = Inl e"
  by (auto simp: activate_def split: option.splits prod.splits sum.splits)

lemma activate_continue:
  "activate rl func timeout st = Inr st' \<Longrightarrow>
     \<exists>w i. earliest (tasks st) = Some (w, i)
       \<and> runner rl func timeout i (st\<lparr>now := max (now st) w\<rparr>) = Inr st'"
  by (auto simp: activate_def split: option.splits prod.splits sum.splits)

lemma activate_agrees:
  assumes "activate rl func timeout st = Inr st'"
    "list_all2 (agrees func timeout) articles (tasks st)"
  shows "list_all2 (agrees func timeout) articles (tasks st')"
proof -
  from activate_continue[OF assms(1)] obtain w i where
    e: "earliest (tasks st) = Some (w, i)" and
    s: "runner rl func timeout i (st\<lparr>now := max (now st) w\<rparr>) = Inr st'" by blast
  from earliest_SomeD[OF e] have "i < length (tasks st)" by simp
  with runner_agrees[OF s] assms(2) show ?thesis by simp
qed

lemma activate_raise_outcome:
  assumes "activate rl func timeout st = Inl (Inl e, st')"
    "list_all2 (agrees func timeout) articles (tasks st)"
  shows "\<exists>i < length articles. outcome func timeout (articles ! i) = Inl e"
proof -
  from activate_raise[OF assms(1)] obtain w i where
    e: "earliest (tasks st) = Some (w, i)" and
    s: "runner rl func timeout i (st\<lparr>now := max (now st) w\<rparr>) = Inl e" by blast
  from earliest_SomeD[OF e] have i: "i < length (tasks st)" by simp
  from runner_raises[OF s] i assms(2) have "outcome func timeout (articles ! i) = Inl e" by simp
  moreover have "i < length articles" using i assms(2) by (simp add: list_all2_lengthD)
  ultimately show ?thesis by blast
qed

lemma results_outcome:
  "list_all2 (agrees func timeout) articles ts \<Longrightarrow> \<forall>t\<in>set ts. due t = None \<Longrightarrow>
     map Inr (results ts) = map (outcome func timeout) articles"
proof (induction rule: list_all2_induct)
  case Nil
  then show ?case by (simp add: results_def)
next
  case (Cons a articles t ts)
  then show ?case by (cases t) (auto simp: results_def)
qed

lemma activate_settled:
  assumes "activate rl func timeout st = Inl (r, st')"
    "list_all2 (agrees func timeout) articles (tasks st)"
  shows "settled func timeout articles r"
proof (cases r)
  case (Inl e)
  with activate_raise_outcome[of rl func timeout st e st' articles] assms
  show ?thesis by (simp add: settled_def)
next
  case (Inr rs)
  with activate_final[of rl func timeout st rs st'] assms(1)
  have "rs = results (tasks st)" "\<forall>t\<in>set (tasks st). due t = None" by simp_all
  with results_outcome[OF assms(2)] Inr show ?thesis by (simp add: settled_def)
qed

subsection \<open>An invariant of the loop holds when the run ends\<close>

text \<open>
  Partial correctness of \<open>run_loop\<close>: a property of the first state that every turn
  preserves holds in the state in which the run ends.
\<close>

lemma run_loop_invariant:
  assumes run: "run_loop rl func timeout st = Some y"
    and init: "I st"
    and pres: "\<And>s s'. I s \<Longrightarrow> activate rl func timeout s = Inr s' \<Longrightarrow> I s'"
  shows "\<exists>s. I s \<and> activate rl func timeout s = Inl y"
proof -
  have "rl' = rl \<and> func' = func \<and> timeout' = timeout \<and> I st
          \<longrightarrow> (\<exists>s. I s \<and> activate rl func timeout s = Inl y)"
    if "run_loop rl' func' timeout' st = Some y" for rl' func' timeout' st y
  proof (rule run_loop.raw_induct[where P = "\<lambda>rl' func' timeout' st y.
      rl' = rl \<and> func' = func \<and> timeout' = timeout \<and> I st
          \<longrightarrow> (\<exists>s. I s \<and> activate rl func timeout s = Inl y)", OF _ that])
    fix loop :: "rate_limit \<Rightarrow> func \<Rightarrow> int \<Rightarrow> loop_state
        \<Rightarrow> ((error + article list) \<times> loop_state) option"
      and rl' func' timeout' st and y :: "(error + article list) \<times> loop_state"
    assume IH: "\<And>rl' func' timeout' st y. loop rl' func' timeout' st = Some y \<Longrightarrow>
      rl' = rl \<and> func' = func \<and> timeout' = timeout \<and> I st
          \<longrightarrow> (\<exists>s. I s \<and> activate rl func timeout s = Inl y)"
    assume eq: "(case activate rl' func' timeout' st of
        Inl final \<Rightarrow> Some final
      | Inr st' \<Rightarrow> loop rl' func' timeout' st') = Some y"
    show "rl' = rl \<and> func' = func \<and> timeout' = timeout \<and> I st
          \<longrightarrow> (\<exists>s. I s \<and> activate rl func timeout s = Inl y)"
    proof
      assume a: "rl' = rl \<and> func' = func \<and> timeout' = timeout \<and> I st"
      show "\<exists>s. I s \<and> activate rl func timeout s = Inl y"
      proof (cases "activate rl func timeout st")
        case (Inl final)
        with eq a have "activate rl func timeout st = Inl y" by simp
        with a show ?thesis by blast
      next
        case (Inr st1)
        with eq a have "loop rl func timeout st1 = Some y" by simp
        from IH[OF this] pres[OF _ Inr] a show ?thesis by blast
      qed
    qed
  qed
  from this[OF run] init show ?thesis by simp
qed

lemma run_loop_settled:
  assumes "run_loop rl func timeout st = Some (r, st')"
    "list_all2 (agrees func timeout) articles (tasks st)"
  shows "settled func timeout articles r"
proof -
  have "\<And>s s'. list_all2 (agrees func timeout) articles (tasks s) \<Longrightarrow>
      activate rl func timeout s = Inr s' \<Longrightarrow> list_all2 (agrees func timeout) articles (tasks s')"
    by (rule activate_agrees)
  from run_loop_invariant[where I = "\<lambda>s. list_all2 (agrees func timeout) articles (tasks s)",
      OF assms(1) assms(2) this]
  have "\<exists>s. list_all2 (agrees func timeout) articles (tasks s) \<and>
    activate rl func timeout s = Inl (r, st')" .
  then obtain s where "list_all2 (agrees func timeout) articles (tasks s)"
    "activate rl func timeout s = Inl (r, st')" by (elim exE conjE)
  from activate_settled[OF this(2) this(1)] show ?thesis .
qed

subsection \<open>The loop ends when the rate limit admits anything\<close>

text \<open>
  With a positive amount, every turn of the loop decreases \<open>progress\<close> in the
  lexicographic order: a runner enters its next phase, or a denied runner comes closer to
  the time at which the storage is empty.
\<close>

lemma sum_list_update_less:
  "i < length xs \<Longrightarrow> \<forall>x\<in>set xs. g x \<le> f x \<Longrightarrow> g y < f (xs ! i) \<Longrightarrow>
     sum_list (map g (xs[i := y])) < (sum_list (map f xs) :: nat)"
proof (induction xs arbitrary: i)
  case Nil
  then show ?case by simp
next
  case (Cons x xs)
  show ?case
  proof (cases i)
    case 0
    have "sum_list (map g xs) \<le> sum_list (map f xs)"
      using Cons.prems(2) by (simp add: sum_list_mono)
    with 0 Cons.prems(3) show ?thesis by simp
  next
    case (Suc j)
    have "j < length xs" "\<forall>x\<in>set xs. g x \<le> f x" "g y < f (xs ! j)"
      using Cons.prems Suc by simp_all
    then have "sum_list (map g (xs[j := y])) < sum_list (map f xs)"
      by (rule Cons.IH)
    moreover have "g x \<le> f x" using Cons.prems(2) by simp
    ultimately show ?thesis using Suc by simp
  qed
qed

lemma sum_list_update_eq:
  "i < length xs \<Longrightarrow> g y = g (xs ! i) \<Longrightarrow>
     sum_list (map g (xs[i := y])) = (sum_list (map g xs) :: nat)"
proof (induction xs arbitrary: i)
  case Nil
  then show ?case by simp
next
  case (Cons x xs)
  then show ?case by (cases i) simp_all
qed

lemma horizon_filter: "horizon rl (filter P evs) \<le> horizon rl evs"
  unfolding horizon_def by (induction evs) auto

lemma horizon_member: "e \<in> set evs \<Longrightarrow> e + period rl \<le> horizon rl evs"
  unfolding horizon_def by (induction evs) auto

lemma slack_mono: "H' \<le> H \<Longrightarrow> slack H' t \<le> slack H t"
  by (cases t) auto

lemma hit_denied:
  "hit rl t evs = (False, evs') \<Longrightarrow>
     evs' = filter (\<lambda>e. t \<le> e + period rl) evs \<and> amount rl \<le> length evs'"
  by (auto simp: hit_def Let_def split: if_splits)

lemma hit_admitted:
  "hit rl t evs = (True, evs') \<Longrightarrow>
     evs' = t # filter (\<lambda>e. t \<le> e + period rl) evs
       \<and> length (filter (\<lambda>e. t \<le> e + period rl) evs) < amount rl"
  by (auto simp: hit_def Let_def split: if_splits)

lemma invoke_phase: "invoke func timeout a t = Inr (t', task, c) \<Longrightarrow> phase task < 2"
  by (auto simp: invoke_unfold split: if_splits response.splits sum.splits)

lemma runner_progress:
  assumes s: "runner rl func timeout i st = Inr st'" and i: "i < length (tasks st)"
    and d: "due (tasks st ! i) = Some w" and w: "w \<le> now st" and pos: "0 < amount rl"
  shows "(progress rl st', progress rl st) \<in> less_than <*lex*> less_than"
proof (cases "tasks st ! i")
  case (Admission a w')
  with d have w': "w' = w" by simp
  obtain ok evs where h: "hit rl (now st) (events st) = (ok, evs)" by (cases "hit rl (now st) (events st)")
  show ?thesis
  proof (cases ok)
    case False
    with s Admission h have st': "st' = st\<lparr>events := evs,
        tasks := (tasks st)[i := Admission a (now st + INTERVAL)]\<rparr>"
      by (simp add: runner_def)
    from h False have hd: "hit rl (now st) (events st) = (False, evs)" by simp
    note evs = hit_denied[OF hd, THEN conjunct1] and len = hit_denied[OF hd, THEN conjunct2]
    from len pos obtain e where e: "e \<in> set evs" by (cases evs) auto
    then have "now st \<le> e + period rl" using evs by simp
    with horizon_member[OF e, of rl] have n: "now st \<le> horizon rl evs" by simp
    have H: "horizon rl evs \<le> horizon rl (events st)" unfolding evs by (rule horizon_filter)
    have 1: "sum_list (map phase ((tasks st)[i := Admission a (now st + INTERVAL)]))
        = sum_list (map phase (tasks st))"
      using i Admission by (intro sum_list_update_eq) simp_all
    have 2: "sum_list (map (slack (horizon rl evs)) ((tasks st)[i := Admission a (now st + INTERVAL)]))
        < sum_list (map (slack (horizon rl (events st))) (tasks st))"
    proof (rule sum_list_update_less[OF i])
      show "\<forall>x\<in>set (tasks st). slack (horizon rl evs) x \<le> slack (horizon rl (events st)) x"
        using slack_mono[OF H] by simp
      show "slack (horizon rl evs) (Admission a (now st + INTERVAL))
          < slack (horizon rl (events st)) (tasks st ! i)"
        using Admission w' w n H by (simp add: INTERVAL_def)
    qed
    show ?thesis unfolding progress_def st' using 1 2 by simp
  next
    case True
    with s Admission h obtain t task c where
      inv: "invoke func timeout a (now st) = Inr (t, task, c)" and
      ts: "tasks st' = (tasks st)[i := task]"
      by (auto simp: runner_def split: sum.splits)
    have "sum_list (map phase ((tasks st)[i := task])) < sum_list (map phase (tasks st))"
    proof (rule sum_list_update_less[OF i])
      show "\<forall>x\<in>set (tasks st). phase x \<le> phase x" by simp
      show "phase task < phase (tasks st ! i)" using invoke_phase[OF inv] Admission by simp
    qed
    then show ?thesis unfolding progress_def ts by simp
  qed
next
  case (Waiting a w' r)
  with s obtain b where ts: "tasks st' = (tasks st)[i := Done b]"
    by (auto simp: runner_def split: sum.splits)
  have "sum_list (map phase ((tasks st)[i := Done b])) < sum_list (map phase (tasks st))"
  proof (rule sum_list_update_less[OF i])
    show "\<forall>x\<in>set (tasks st). phase x \<le> phase x" by simp
    show "phase (Done b) < phase (tasks st ! i)" using Waiting by simp
  qed
  then show ?thesis unfolding progress_def ts by simp
next
  case (Done b)
  with d show ?thesis by simp
qed

lemma activate_progress:
  assumes "activate rl func timeout st = Inr st'" "0 < amount rl"
  shows "(progress rl st', progress rl st) \<in> less_than <*lex*> less_than"
proof -
  from activate_continue[OF assms(1)] obtain w i where
    e: "earliest (tasks st) = Some (w, i)" and
    s: "runner rl func timeout i (st\<lparr>now := max (now st) w\<rparr>) = Inr st'" by (elim exE conjE)
  from earliest_SomeD[OF e] have i: "i < length (tasks st)" "due (tasks st ! i) = Some w" by simp_all
  have "(progress rl st', progress rl (st\<lparr>now := max (now st) w\<rparr>)) \<in> less_than <*lex*> less_than"
    by (rule runner_progress[OF s _ _ _ assms(2), of w]) (use i in simp_all)
  then show ?thesis by (simp add: progress_def)
qed

lemma run_loop_returns:
  assumes "0 < amount rl"
  shows "\<exists>y. run_loop rl func timeout st = Some y"
proof -
  have "wf (inv_image (less_than <*lex*> less_than) (progress rl))"
    by (intro wf_inv_image wf_lex_prod wf_less_than)
  then show ?thesis
  proof (induction st rule: wf_induct_rule)
  case (less st)
  show ?case
  proof (cases "activate rl func timeout st")
    case (Inl final)
    then have "run_loop rl func timeout st = Some final"
      by (subst run_loop.simps) simp
    then show ?thesis by (rule exI)
  next
    case (Inr st')
    from activate_progress[OF Inr assms]
    have "(st', st) \<in> inv_image (less_than <*lex*> less_than) (progress rl)"
      by (simp add: inv_image_def)
    from less[OF this] obtain y where "run_loop rl func timeout st' = Some y" by (elim exE)
    with Inr have "run_loop rl func timeout st = Some y"
      by (subst run_loop.simps) simp
    then show ?thesis by (rule exI)
  qed
  qed
qed

subsection \<open>The rate limit holds in every state\<close>

text \<open>
  Every activation keeps the invariant \<open>limited\<close>: an admitted hit found fewer than
  \<open>amount\<close> hits in the window that ends with it, and every window that holds the new
  hit holds only hits of that window besides.
\<close>

lemma length_filter_mono:
  "\<forall>x\<in>set xs. P x \<longrightarrow> Q x \<Longrightarrow> length (filter P xs) \<le> length (filter Q xs)"
  by (induction xs) auto

lemma invoke_time: "invoke func timeout a t = Inr (t', task, c) \<Longrightarrow> t \<le> t'"
  by (auto simp: invoke_unfold except_timeout_def split: if_splits response.splits sum.splits)

lemma limited_later: "limited rl st \<Longrightarrow> now st \<le> t \<Longrightarrow> limited rl (st\<lparr>now := t\<rparr>)"
  unfolding limited_def by (auto intro: order_trans)

lemma refilter:
  assumes "T \<le> (t :: nat)"
  shows "filter (\<lambda>e. t \<le> e + p) (filter (\<lambda>h. T \<le> h + p) hs) = filter (\<lambda>h. t \<le> h + p) hs"
  using assms by (induction hs) auto

lemma runner_limited:
  assumes s: "runner rl func timeout i st = Inr st'" and l: "limited rl st"
  shows "limited rl st'"
proof (cases "tasks st ! i")
  case (Admission a w)
  from l obtain T where T: "T \<le> now st"
    and ev: "events st = filter (\<lambda>h. T \<le> h + period rl) (hits st)"
    unfolding limited_def by (elim conjE exE)
  from l have le: "\<forall>h\<in>set (hits st). h \<le> now st"
    and bound: "\<forall>s. admitted_in s (period rl) (hits st) \<le> amount rl"
    unfolding limited_def by simp_all
  have live: "filter (\<lambda>e. now st \<le> e + period rl) (events st)
      = filter (\<lambda>h. now st \<le> h + period rl) (hits st)"
    unfolding ev by (rule refilter[OF T])
  obtain ok evs where h: "hit rl (now st) (events st) = (ok, evs)"
    by (cases "hit rl (now st) (events st)")
  show ?thesis
  proof (cases ok)
    case False
    with h have hd: "hit rl (now st) (events st) = (False, evs)" by simp
    from s Admission hd have st': "st' = st\<lparr>events := evs,
        tasks := (tasks st)[i := Admission a (now st + INTERVAL)]\<rparr>"
      by (simp add: runner_def)
    have "events st' = filter (\<lambda>h. now st \<le> h + period rl) (hits st')"
      using hit_denied[OF hd, THEN conjunct1] live by (simp add: st')
    then have "\<exists>T \<le> now st'. events st' = filter (\<lambda>h. T \<le> h + period rl) (hits st')"
      by (intro exI[of _ "now st"]) (simp add: st')
    then show ?thesis using le bound unfolding limited_def by (simp add: st')
  next
    case True
    with h have ha: "hit rl (now st) (events st) = (True, evs)" by simp
    from s Admission ha obtain t task c where
      inv: "invoke func timeout a (now st) = Inr (t, task, c)" and
      st': "st' = st\<lparr>now := t, events := evs, tasks := (tasks st)[i := task],
                hits := now st # hits st,
                calls := (if c then a # calls st else calls st)\<rparr>"
      by (auto simp: runner_def split: sum.splits)
    note t = invoke_time[OF inv]
    note evs = hit_admitted[OF ha, THEN conjunct1] and room = hit_admitted[OF ha, THEN conjunct2]
    have 1: "\<forall>h\<in>set (hits st'). h \<le> now st'"
      using le t by (auto simp: st')
    have "events st' = filter (\<lambda>h. now st \<le> h + period rl) (hits st')"
      using evs live by (simp add: st')
    then have 2: "\<exists>T \<le> now st'. events st' = filter (\<lambda>h. T \<le> h + period rl) (hits st')"
      using t by (intro exI[of _ "now st"]) (simp add: st')
    have 3: "admitted_in s (period rl) (hits st') \<le> amount rl" for s
    proof (cases "s \<le> now st \<and> now st \<le> s + period rl")
      case True
      have "admitted_in s (period rl) (hits st)
          \<le> length (filter (\<lambda>h. now st \<le> h + period rl) (hits st))"
        unfolding admitted_in_def using True by (intro length_filter_mono) auto
      also have "\<dots> < amount rl" using room live by simp
      finally show ?thesis using True by (simp add: st' admitted_in_def)
    next
      case False
      then have "admitted_in s (period rl) (hits st') = admitted_in s (period rl) (hits st)"
        by (auto simp: st' admitted_in_def)
      with bound show ?thesis by simp
    qed
    from 1 2 3 show ?thesis unfolding limited_def by simp
  qed
next
  case (Waiting a w r)
  with s obtain b where "st' = st\<lparr>tasks := (tasks st)[i := Done b]\<rparr>"
    by (auto simp: runner_def split: sum.splits)
  with l show ?thesis unfolding limited_def by simp
next
  case (Done b)
  with s l show ?thesis by (simp add: runner_def)
qed

lemma activate_limited:
  assumes "activate rl func timeout st = Inr st'" "limited rl st"
  shows "limited rl st'"
proof -
  from activate_continue[OF assms(1)] obtain w i where
    s: "runner rl func timeout i (st\<lparr>now := max (now st) w\<rparr>) = Inr st'" by (elim exE conjE)
  from limited_later[OF assms(2), of "max (now st) w"]
  have "limited rl (st\<lparr>now := max (now st) w\<rparr>)" by simp
  from runner_limited[OF s this] show ?thesis .
qed

lemma activate_limited_final:
  assumes "activate rl func timeout st = Inl (r, st')" "limited rl st"
  shows "limited rl st'"
proof (cases r)
  case (Inl e)
  with assms(1) have "activate rl func timeout st = Inl (Inl e, st')" by simp
  from activate_raise[OF this]
  obtain w where "st' = st\<lparr>now := max (now st) w\<rparr>" by (elim exE conjE)
  with limited_later[OF assms(2), of "max (now st) w"] show ?thesis by simp
next
  case (Inr rs)
  with activate_final[of rl func timeout st rs st'] assms show ?thesis by simp
qed

lemma turns_limited: "limited rl st \<Longrightarrow> limited rl (turns n rl func timeout st)"
proof (induction n arbitrary: st)
  case 0
  then show ?case by simp
next
  case (Suc n)
  show ?case
  proof (cases "activate rl func timeout st")
    case (Inl final)
    obtain r s where f: "final = (r, s)" by (cases final)
    with Inl activate_limited_final[OF _ Suc.prems, of func timeout r s] show ?thesis by simp
  next
    case (Inr st')
    with Suc.IH[OF activate_limited[OF Inr Suc.prems]] show ?thesis by simp
  qed
qed

lemma limited_initial: "limited rl (initial articles)"
  by (simp add: limited_def initial_def admitted_in_def)

subsection \<open>Admissions are counted, and an amount of 0 admits nothing\<close>

lemma sum_list_update_Suc:
  "i < length xs \<Longrightarrow> g (xs ! i) = 0 \<Longrightarrow> g y = 1 \<Longrightarrow>
     sum_list (map g (xs[i := y])) = Suc (sum_list (map g xs))"
proof (induction xs arbitrary: i)
  case Nil
  then show ?case by simp
next
  case (Cons x xs)
  then show ?case by (cases i) simp_all
qed

lemma invoke_admitted: "invoke func timeout a t = Inr (t', task, c) \<Longrightarrow> admitted task = 1"
  by (auto simp: invoke_unfold split: if_splits response.splits sum.splits)

lemma runner_counted:
  assumes s: "runner rl func timeout i st = Inr st'" and i: "i < length (tasks st)"
    and c: "counted st"
  shows "counted st'"
proof (cases "tasks st ! i")
  case (Admission a w)
  obtain ok evs where h: "hit rl (now st) (events st) = (ok, evs)"
    by (cases "hit rl (now st) (events st)")
  show ?thesis
  proof (cases ok)
    case False
    with s Admission h have st': "st' = st\<lparr>events := evs,
        tasks := (tasks st)[i := Admission a (now st + INTERVAL)]\<rparr>"
      by (simp add: runner_def)
    have "sum_list (map admitted ((tasks st)[i := Admission a (now st + INTERVAL)]))
        = sum_list (map admitted (tasks st))"
      using i Admission by (intro sum_list_update_eq) simp_all
    with c show ?thesis by (simp add: counted_def st')
  next
    case True
    with s Admission h obtain t task c where
      inv: "invoke func timeout a (now st) = Inr (t, task, c)" and
      ts: "tasks st' = (tasks st)[i := task]" and hs: "hits st' = now st # hits st"
      by (auto simp: runner_def split: sum.splits)
    have "sum_list (map admitted ((tasks st)[i := task])) = Suc (sum_list (map admitted (tasks st)))"
      using i Admission invoke_admitted[OF inv] by (intro sum_list_update_Suc) simp_all
    with c show ?thesis by (simp add: counted_def ts hs)
  qed
next
  case (Waiting a w r)
  with s obtain b where st': "st' = st\<lparr>tasks := (tasks st)[i := Done b]\<rparr>"
    by (auto simp: runner_def split: sum.splits)
  have "sum_list (map admitted ((tasks st)[i := Done b])) = sum_list (map admitted (tasks st))"
    using i Waiting by (intro sum_list_update_eq) simp_all
  with c show ?thesis by (simp add: counted_def st')
next
  case (Done b)
  with s c show ?thesis by (simp add: runner_def)
qed

lemma activate_counted:
  assumes "activate rl func timeout st = Inr st'" "counted st"
  shows "counted st'"
proof -
  from activate_continue[OF assms(1)] obtain w i where
    e: "earliest (tasks st) = Some (w, i)" and
    s: "runner rl func timeout i (st\<lparr>now := max (now st) w\<rparr>) = Inr st'" by (elim exE conjE)
  from earliest_SomeD[OF e] have i: "i < length (tasks (st\<lparr>now := max (now st) w\<rparr>))" by simp
  from assms(2) have "counted (st\<lparr>now := max (now st) w\<rparr>)" by (simp add: counted_def)
  from runner_counted[OF s i this] show ?thesis .
qed

lemma all_done_admitted:
  "\<forall>t\<in>set ts. due t = None \<Longrightarrow> sum_list (map admitted ts) = length ts"
proof (induction ts)
  case Nil
  then show ?case by simp
next
  case (Cons t ts)
  then show ?case by (cases t) simp_all
qed

lemma run_loop_counted:
  assumes run: "run_loop rl func timeout st = Some (Inr rs, st')" and c: "counted st"
  shows "length (hits st') = length (tasks st')"
proof -
  have "\<exists>s. counted s \<and> activate rl func timeout s = Inl (Inr rs, st')"
  proof (rule run_loop_invariant[where I = counted, OF run c])
    fix s s' assume "counted s" "activate rl func timeout s = Inr s'"
    then show "counted s'" by (rule activate_counted[rotated])
  qed
  then obtain s where s: "counted s" "activate rl func timeout s = Inl (Inr rs, st')"
    by (elim exE conjE)
  from activate_final[OF s(2)] have "st' = s" "\<forall>t\<in>set (tasks s). due t = None" by simp_all
  with s(1) all_done_admitted[of "tasks s"] show ?thesis by (simp add: counted_def)
qed

lemma run_loop_limited:
  assumes run: "run_loop rl func timeout st = Some (r, st')" and l: "limited rl st"
  shows "limited rl st'"
proof -
  have "\<exists>s. limited rl s \<and> activate rl func timeout s = Inl (r, st')"
  proof (rule run_loop_invariant[where I = "limited rl", OF run l])
    fix s s' assume "limited rl s" "activate rl func timeout s = Inr s'"
    then show "limited rl s'" by (rule activate_limited[rotated])
  qed
  then obtain s where s: "limited rl s" "activate rl func timeout s = Inl (r, st')"
    by (elim exE conjE)
  from activate_limited_final[OF s(2) s(1)] show ?thesis .
qed

lemma earliest_starved:
  "ts \<noteq> [] \<Longrightarrow> list_all waiting_admission ts \<Longrightarrow> \<exists>w i. earliest ts = Some (w, i)"
proof (cases "earliest ts")
  case None
  assume "ts \<noteq> []" "list_all waiting_admission ts"
  then obtain t where t: "t \<in> set ts" "waiting_admission t" by (cases ts) auto
  with None have "due t = None" by (simp add: earliest_None_iff)
  with t(2) show ?thesis by (cases t) simp_all
next
  case (Some a)
  then show ?thesis by (cases a) simp
qed

lemma list_all_update: "list_all P xs \<Longrightarrow> P y \<Longrightarrow> list_all P (xs[i := y])"
  by (induction xs arbitrary: i) (auto split: nat.splits)

lemma activate_starved:
  assumes z: "amount rl = 0" and st: "starved st"
  shows "\<exists>st'. activate rl func timeout st = Inr st' \<and> starved st'"
proof -
  from st have ne: "tasks st \<noteq> []" and all: "list_all waiting_admission (tasks st)"
    by (simp_all add: starved_def)
  from earliest_starved[OF ne all] obtain w i where e: "earliest (tasks st) = Some (w, i)"
    by (elim exE)
  from earliest_SomeD[OF e] have i: "i < length (tasks st)" by simp
  with all have "waiting_admission (tasks st ! i)" by (simp add: list_all_length)
  then obtain a w' where t: "tasks st ! i = Admission a w'" by (cases "tasks st ! i") simp_all
  let ?s = "st\<lparr>now := max (now st) w\<rparr>"
  have h: "hit rl (now ?s) (events ?s) = (False, filter (\<lambda>e. now ?s \<le> e + period rl) (events ?s))"
    using z by (simp add: hit_def)
  let ?st' = "?s\<lparr>events := filter (\<lambda>e. now ?s \<le> e + period rl) (events ?s),
          tasks := (tasks ?s)[i := Admission a (now ?s + INTERVAL)]\<rparr>"
  have "runner rl func timeout i ?s = Inr ?st'"
    using t h by (simp add: runner_def)
  with e have "activate rl func timeout st = Inr ?st'" by (simp add: activate_def)
  moreover have "starved ?st'"
    using st list_all_update[OF all, of "Admission a (max (now st) w + INTERVAL)" i]
    by (simp add: starved_def)
  ultimately show ?thesis by (intro exI conjI)
qed

lemma run_loop_starved:
  assumes "amount rl = 0" "starved st"
  shows "run_loop rl func timeout st = None"
proof (cases "run_loop rl func timeout st")
  case None
  then show ?thesis .
next
  case (Some y)
  have "\<exists>s. starved s \<and> activate rl func timeout s = Inl y"
  proof (rule run_loop_invariant[where I = starved, OF Some assms(2)])
    fix s s' assume "starved s" and a: "activate rl func timeout s = Inr s'"
    from activate_starved[OF assms(1) this(1), of func timeout] a show "starved s'" by simp
  qed
  then obtain s where s: "starved s" "activate rl func timeout s = Inl y" by (elim exE conjE)
  from activate_starved[OF assms(1) s(1), of func timeout] s(2) show ?thesis by simp
qed

lemma turns_starved:
  "amount rl = 0 \<Longrightarrow> starved st \<Longrightarrow> starved (turns n rl func timeout st)"
proof (induction n arbitrary: st)
  case 0
  then show ?case by simp
next
  case (Suc n)
  from activate_starved[OF Suc.prems, of func timeout] obtain st' where
    a: "activate rl func timeout st = Inr st'" and s: "starved st'" by (elim exE conjE)
  from Suc.IH[OF Suc.prems(1) s] a show ?case by simp
qed

lemma runner_denied:
  fixes st :: loop_state
  shows "tasks st ! i = Admission a w \<Longrightarrow> hit rl (now st) (events st) = (False, evs) \<Longrightarrow>
     runner rl func timeout i st
       = Inr (st\<lparr>events := evs, tasks := (tasks st)[i := Admission a (now st + INTERVAL)]\<rparr>)"
  by (simp add: runner_def)


section \<open>Lemmas on \<open>amap\<close>\<close>

text \<open>
  What \<open>amap\<close> returns is the list of the outcomes of the articles, and what it raises
  is the outcome of one of them or the error of the parser.
\<close>

lemma agrees_initial: "list_all2 (agrees func timeout) articles (tasks (initial articles))"
  by (simp add: initial_def list_all2_conv_all_nth)

lemma counted_initial: "counted (initial articles)"
  by (induction articles) (simp_all add: counted_def initial_def)

lemma main_unparsed:
  "rate_limit_of parse limit = None \<Longrightarrow>
     main parse func articles limit timeout = Some (Inl ValueError, initial [])"
  by (simp add: main_def)

lemma main_parsed:
  "rate_limit_of parse limit = Some rl \<Longrightarrow>
     main parse func articles limit timeout = run_loop rl func timeout (initial articles)"
  by (simp add: main_def)

lemma amap_main:
  "amap parse func articles limit timeout = Some r \<longleftrightarrow>
     (\<exists>st. main parse func articles limit timeout = Some (r, st))"
  by (auto simp: amap_def)

lemma outcome_not_timeout: "outcome func timeout a \<noteq> Inl TimeoutError"
  by (auto simp: outcome_def except_timeout_def afunc_result_def
      split: response.splits sum.splits)

lemma outcome_raised:
  "outcome func timeout a = Inl e \<Longrightarrow>
     \<exists>d. func a = Raise d e \<or> func a = Awaitable d (Inl e)"
  by (auto simp: outcome_def except_timeout_def afunc_result_def
      split: response.splits sum.splits if_splits)

lemma outcome_returned:
  "outcome func timeout a = Inr b \<Longrightarrow>
     b = a \<or> (\<exists>d r. (func a = Return d r \<or> func a = Awaitable d (Inr r)) \<and> b = replace_origin r a)"
  by (auto simp: outcome_def except_timeout_def afunc_result_def
      split: response.splits sum.splits if_splits)

lemma main_settled:
  assumes "main parse func articles limit timeout = Some (r, st)"
  shows "(rate_limit_of parse limit = None \<and> r = Inl ValueError) \<or> settled func timeout articles r"
proof (cases "rate_limit_of parse limit")
  case None
  with assms show ?thesis by (simp add: main_unparsed)
next
  case (Some rl)
  with assms have "run_loop rl func timeout (initial articles) = Some (r, st)"
    by (simp add: main_parsed)
  from run_loop_settled[OF this agrees_initial] show ?thesis by simp
qed

lemma amap_outcomes:
  assumes "amap parse func articles limit timeout = Some (Inr rs)"
  shows "map Inr rs = map (outcome func timeout) articles"
proof -
  from assms obtain st where "main parse func articles limit timeout = Some (Inr rs, st)"
    unfolding amap_main by (elim exE)
  from main_settled[OF this] show ?thesis by (simp add: settled_def)
qed

lemma amap_outcome_nth:
  assumes "amap parse func articles limit timeout = Some (Inr rs)" "i < length articles"
  shows "length rs = length articles" "outcome func timeout (articles ! i) = Inr (rs ! i)"
proof -
  note m = amap_outcomes[OF assms(1)]
  from m have "length (map Inr rs :: (error + article) list) = length (map (outcome func timeout) articles)"
    by simp
  then show l: "length rs = length articles" by simp
  from m have "(map Inr rs :: (error + article) list) ! i = map (outcome func timeout) articles ! i"
    by simp
  with l assms(2) show "outcome func timeout (articles ! i) = Inr (rs ! i)" by simp
qed

lemma run_loop_empty:
  "run_loop rl func timeout (initial []) = Some (Inr [], initial [])"
  by (subst run_loop.simps) (simp add: activate_def initial_def results_def)

lemma main_returns:
  assumes "rate_limit_of parse limit = Some rl" "articles = [] \<or> 0 < amount rl"
  shows "\<exists>r st. main parse func articles limit timeout = Some (r, st)"
proof (cases "articles = []")
  case True
  with assms(1) show ?thesis by (simp add: main_parsed run_loop_empty)
next
  case False
  with assms(2) have "0 < amount rl" by simp
  from run_loop_returns[OF this, of func timeout "initial articles"] assms(1)
  show ?thesis by (simp add: main_parsed)
qed

lemma amap_returns_list:
  assumes rl: "rate_limit_of parse limit = Some rl" "articles = [] \<or> 0 < amount rl"
    and ok: "\<forall>a\<in>set articles. \<forall>e. outcome func timeout a \<noteq> Inl e"
  shows "\<exists>rs. amap parse func articles limit timeout = Some (Inr rs)"
proof -
  from main_returns[OF rl, of func timeout] obtain r st where
    m: "main parse func articles limit timeout = Some (r, st)" by (elim exE)
  show ?thesis
  proof (cases r)
    case (Inl e)
    with main_settled[OF m] rl(1)
    obtain i where "i < length articles" "outcome func timeout (articles ! i) = Inl e"
      by (auto simp: settled_def)
    with ok show ?thesis by (metis nth_mem)
  next
    case (Inr rs)
    with m have "amap parse func articles limit timeout = Some (Inr rs)"
      by (simp add: amap_def)
    then show ?thesis by (rule exI)
  qed
qed

lemma no_raise_outcome:
  assumes "\<forall>d e. func a = Raise d e \<or> func a = Awaitable d (Inl e) \<longrightarrow> e = TimeoutError"
  shows "outcome func timeout a \<noteq> Inl e"
proof
  assume o: "outcome func timeout a = Inl e"
  from outcome_raised[OF o] assms have "e = TimeoutError" by blast
  with o outcome_not_timeout[of func timeout a] show False by simp
qed




lemma starved_initial: "articles \<noteq> [] \<Longrightarrow> starved (initial articles)"
  by (simp add: starved_def initial_def list_all_iff)

lemma run_loop_admits_all:
  assumes run: "run_loop rl func timeout (initial articles) = Some (Inr rs, st)"
  shows "length (hits st) = length articles"
proof -
  let ?I = "\<lambda>s. counted s \<and> list_all2 (agrees func timeout) articles (tasks s)"
  have "\<exists>s. ?I s \<and> activate rl func timeout s = Inl (Inr rs, st)"
  proof (rule run_loop_invariant[where I = ?I, OF run])
    show "?I (initial articles)" using counted_initial agrees_initial by (intro conjI)
  next
    fix s s' assume "?I s" and a: "activate rl func timeout s = Inr s'"
    then show "?I s'" using activate_counted[OF a] activate_agrees[OF a] by simp
  qed
  then obtain s where c: "counted s" and ag: "list_all2 (agrees func timeout) articles (tasks s)"
    and f: "activate rl func timeout s = Inl (Inr rs, st)" by (elim exE conjE)
  from activate_final[OF f] have "st = s" "\<forall>t\<in>set (tasks s). due t = None" by simp_all
  with c all_done_admitted[of "tasks s"] have "length (hits st) = length (tasks s)"
    by (simp add: counted_def)
  with ag show ?thesis by (simp add: list_all2_lengthD)
qed

section \<open>Lemmas on \<open>search\<close>\<close>














lemma assign_text_returns: "\<exists>a. assign_text latex_to_text b = Inr a"
  by (auto simp: assign_text_def format_text_def split: sum.splits)



section \<open>The claims about \<open>amap\<close>\<close>

text \<open>
  C1. Whenever \<open>amap\<close> returns a list, the list is as long as the input and its
  \<open>i\<close>-th element belongs to the \<open>i\<close>-th article, whatever the order in which the runners
  have finished: it is that article itself or the article the function has made of it,
  with the back-reference. \<open>amap\<close> does return a list when the rate limit parses, admits
  anything (or there is no article) and the function raises nothing but \<open>TimeoutError\<close>;
  for the empty input the list is empty.
\<close>

theorem amap_keeps_input_order:
  "(\<forall>rs. amap parse func articles limit timeout = Some (Inr rs) \<longrightarrow>
      length rs = length articles \<and>
      (\<forall>i<length articles.
         rs ! i = articles ! i \<or>
         (\<exists>d r. (func (articles ! i) = Return d r \<or> func (articles ! i) = Awaitable d (Inr r))
                \<and> rs ! i = replace_origin r (articles ! i))))
   \<and> (\<forall>rl. rate_limit_of parse limit = Some rl \<and> (articles = [] \<or> 0 < amount rl)
          \<and> (\<forall>a\<in>set articles. \<forall>d e.
                func a = Raise d e \<or> func a = Awaitable d (Inl e) \<longrightarrow> e = TimeoutError)
        \<longrightarrow> (\<exists>rs. amap parse func articles limit timeout = Some (Inr rs)))
   \<and> (rate_limit_of parse limit \<noteq> None \<longrightarrow> amap parse func [] limit timeout = Some (Inr []))"
proof (intro conjI allI impI)
  fix rs assume a: "amap parse func articles limit timeout = Some (Inr rs)"
  show "length rs = length articles"
    using amap_outcomes[OF a, THEN arg_cong, of length] by simp
  fix i assume i: "i < length articles"
  from amap_outcome_nth(2)[OF a i] outcome_returned
  show "rs ! i = articles ! i \<or>
         (\<exists>d r. (func (articles ! i) = Return d r \<or> func (articles ! i) = Awaitable d (Inr r))
                \<and> rs ! i = replace_origin r (articles ! i))" by simp
next
  fix rl
  assume h: "rate_limit_of parse limit = Some rl \<and> (articles = [] \<or> 0 < amount rl)
          \<and> (\<forall>a\<in>set articles. \<forall>d e.
                func a = Raise d e \<or> func a = Awaitable d (Inl e) \<longrightarrow> e = TimeoutError)"
  then have "\<forall>a\<in>set articles. \<forall>e. outcome func timeout a \<noteq> Inl e"
    using no_raise_outcome by blast
  with h show "\<exists>rs. amap parse func articles limit timeout = Some (Inr rs)"
    by (intro amap_returns_list[of parse limit rl]) simp_all
next
  assume "rate_limit_of parse limit \<noteq> None"
  then obtain rl where "rate_limit_of parse limit = Some rl" by (cases "rate_limit_of parse limit") simp_all
  then show "amap parse func [] limit timeout = Some (Inr [])"
    by (simp add: amap_def main_parsed run_loop_empty)
qed

text \<open>
  The theorem at two articles under the rate limit \<open>3/second\<close> and a timeout of 500 ms,
  where the function takes longer on the first article than on the second: after three
  turns of the loop the second runner has returned and the first has not, and the list
  is in the order of the input.
\<close>

theorem amap_keeps_input_order_witness:
  "rate_limit_of parse_plain (Some ''3/second'') = Some \<lparr>amount = 3, period = 1000\<rparr>
   \<and> tasks (turns 3 \<lparr>amount = 3, period = 1000\<rparr> uneven 500 (initial [paper, review]))
       = [Waiting paper 400 (Inr (replace_origin (summarized paper) paper)),
          Done (replace_origin (summarized review) review)]
   \<and> amap parse_plain uneven [paper, review] (Some ''3/second'') 500
       = Some (Inr [replace_origin (summarized paper) paper,
                    replace_origin (summarized review) review])
   \<and> (\<exists>rs. amap parse_plain uneven [paper, review] (Some ''3/second'') 500 = Some (Inr rs))
   \<and> length [replace_origin (summarized paper) paper, replace_origin (summarized review) review]
       = length [paper, review]
   \<and> amap parse_plain uneven [] (Some ''3/second'') 500 = Some (Inr [])"
proof -
  have rl: "rate_limit_of parse_plain (Some ''3/second'') = Some \<lparr>amount = 3, period = 1000\<rparr>"
    by code_simp
  have ok: "\<forall>a\<in>set [paper, review]. \<forall>d e.
         uneven a = Raise d e \<or> uneven a = Awaitable d (Inl e) \<longrightarrow> e = TimeoutError"
    by (simp add: uneven_def)
  have order: "tasks (turns 3 \<lparr>amount = 3, period = 1000\<rparr> uneven 500 (initial [paper, review]))
       = [Waiting paper 400 (Inr (replace_origin (summarized paper) paper)),
          Done (replace_origin (summarized review) review)]"
    by code_simp
  have run: "amap parse_plain uneven [paper, review] (Some ''3/second'') 500
       = Some (Inr [replace_origin (summarized paper) paper,
                    replace_origin (summarized review) review])"
    by code_simp
  note t = amap_keeps_input_order[of parse_plain uneven "[paper, review]" "Some ''3/second''" 500]
  from t[THEN conjunct1, rule_format, OF run]
  have 1: "length [replace_origin (summarized paper) paper,
      replace_origin (summarized review) review] = length [paper, review]"
    by (rule conjunct1)
  from t[THEN conjunct2, THEN conjunct1, rule_format, of "\<lparr>amount = 3, period = 1000\<rparr>"] rl ok
  have 2: "\<exists>rs. amap parse_plain uneven [paper, review] (Some ''3/second'') 500 = Some (Inr rs)"
    by simp
  from amap_keeps_input_order[of parse_plain uneven "[]" "Some ''3/second''" 500,
      THEN conjunct2, THEN conjunct2] rl
  have 3: "amap parse_plain uneven [] (Some ''3/second'') 500 = Some (Inr [])" by simp
  from rl order run 1 2 3 show ?thesis by (intro conjI)
qed








text \<open>
  C5, as amended. When the parser rejects the rate limit, \<open>amap\<close> raises the
  \<open>ValueError\<close> of the parser before any runner exists: nothing is admitted and the
  function is not called. \<open>amap\<close> itself checks nothing about a parsed rate limit: with
  an amount of 0 it returns the empty list for the empty input, and for any other input it
  never returns, and never calls the function.
\<close>

theorem amap_rejects_unparsed_limit:
  "(rate_limit_of parse limit = None \<longrightarrow>
      (\<exists>st. main parse func articles limit timeout = Some (Inl ValueError, st)
         \<and> tasks st = [] \<and> hits st = [] \<and> calls st = []))
   \<and> (\<forall>rl. rate_limit_of parse limit = Some rl \<and> amount rl = 0 \<longrightarrow>
         (articles = [] \<longrightarrow> amap parse func articles limit timeout = Some (Inr []))
         \<and> (articles \<noteq> [] \<longrightarrow>
              amap parse func articles limit timeout = None
              \<and> (\<forall>n. calls (turns n rl func timeout (initial articles)) = [])))"
proof (intro conjI allI impI)
  assume "rate_limit_of parse limit = None"
  then have "main parse func articles limit timeout = Some (Inl ValueError, initial [])"
    by (rule main_unparsed)
  then show "\<exists>st. main parse func articles limit timeout = Some (Inl ValueError, st)
         \<and> tasks st = [] \<and> hits st = [] \<and> calls st = []"
    by (intro exI[of _ "initial []"]) (simp add: initial_def)
next
  fix rl
  assume h: "rate_limit_of parse limit = Some rl \<and> amount rl = 0" and "articles = []"
  then show "amap parse func articles limit timeout = Some (Inr [])"
    by (simp add: amap_def main_parsed run_loop_empty)
next
  fix rl
  assume h: "rate_limit_of parse limit = Some rl \<and> amount rl = 0" and ne: "articles \<noteq> []"
  from h run_loop_starved[OF _ starved_initial[OF ne], of rl func timeout]
  show "amap parse func articles limit timeout = None"
    by (simp add: amap_def main_parsed)
next
  fix rl n
  assume h: "rate_limit_of parse limit = Some rl \<and> amount rl = 0" and ne: "articles \<noteq> []"
  from h turns_starved[OF _ starved_initial[OF ne], of rl n func timeout]
  show "calls (turns n rl func timeout (initial articles)) = []"
    by (simp add: starved_def)
qed

text \<open>
  The theorem at a string that is no rate limit, and at the rate limit \<open>0/minute\<close>.
\<close>

theorem amap_rejects_unparsed_limit_witness:
  "rate_limit_of parse_plain (Some ''fast'') = None
   \<and> (\<exists>st. main parse_plain quick [paper, review] (Some ''fast'') 500 = Some (Inl ValueError, st)
         \<and> tasks st = [] \<and> hits st = [] \<and> calls st = [])
   \<and> amap parse_plain quick [paper, review] (Some ''fast'') 500 = Some (Inl ValueError)
   \<and> rate_limit_of parse_plain (Some ''0/minute'') = Some \<lparr>amount = 0, period = 60000\<rparr>
   \<and> amap parse_plain quick [paper, review] (Some ''0/minute'') 500 = None"
proof -
  have 1: "rate_limit_of parse_plain (Some ''fast'') = None" by code_simp
  note t = amap_rejects_unparsed_limit[of parse_plain _ quick "[paper, review]" 500]
  from t[of "Some ''fast''", THEN conjunct1] 1
  have 2: "\<exists>st. main parse_plain quick [paper, review] (Some ''fast'') 500 = Some (Inl ValueError, st)
         \<and> tasks st = [] \<and> hits st = [] \<and> calls st = []" by simp
  then have 3: "amap parse_plain quick [paper, review] (Some ''fast'') 500 = Some (Inl ValueError)"
    by (auto simp: amap_def)
  have 4: "rate_limit_of parse_plain (Some ''0/minute'') = Some \<lparr>amount = 0, period = 60000\<rparr>"
    by code_simp
  from t[of "Some ''0/minute''", THEN conjunct2, rule_format, of "\<lparr>amount = 0, period = 60000\<rparr>"] 4
  have 5: "amap parse_plain quick [paper, review] (Some ''0/minute'') 500 = None" by simp
  from 1 2 3 4 5 show ?thesis by (intro conjI)
qed

text \<open>
  C5 as it is stated has every rate limit with a count of 0 fail before any article is
  processed. The rate limit \<open>0/second\<close> parses, and \<open>amap\<close> does not fail: it returns the
  empty list for no article and does not return for one article.
\<close>

theorem zero_amount_counterexample:
  "parse_plain ''0/second'' = Some \<lparr>amount = 0, period = 1000\<rparr>
   \<and> amap parse_plain quick [] (Some ''0/second'') 500 = Some (Inr [])
   \<and> amap parse_plain quick [paper] (Some ''0/second'') 500 = None"
proof -
  have 1: "parse_plain ''0/second'' = Some \<lparr>amount = 0, period = 1000\<rparr>" by code_simp
  have 2: "amap parse_plain quick [] (Some ''0/second'') 500 = Some (Inr [])" by code_simp
  have "starved (initial [paper])" by (rule starved_initial) simp
  from run_loop_starved[OF _ this, of "\<lparr>amount = 0, period = 1000\<rparr>" quick 500] 1
  have 3: "amap parse_plain quick [paper] (Some ''0/second'') 500 = None"
    by (simp add: amap_def main_def rate_limit_of_def)
  from 1 2 3 show ?thesis by (intro conjI)
qed

text \<open>
  C6. In every state of a run, and in the last state when the run ends, no window of the
  length of the period, ends included, holds more admitted hits than the amount of the
  rate limit. A denied hit records no timestamp: it only drops the timestamps that have
  left the window. A runner whose hit is denied tries again after \<open>INTERVAL\<close>, the log of
  admitted hits unchanged; with a positive amount the run ends, and when it ends with a
  list, every runner has been admitted once.
\<close>

theorem amap_rate_limit_bound:
  assumes rl: "rate_limit_of parse limit = Some rl"
  shows
    "(\<forall>n s. admitted_in s (period rl) (hits (turns n rl func timeout (initial articles)))
              \<le> amount rl)
     \<and> (\<forall>r st s. main parse func articles limit timeout = Some (r, st) \<longrightarrow>
           admitted_in s (period rl) (hits st) \<le> amount rl)
     \<and> (\<forall>t evs evs'. hit rl t evs = (False, evs') \<longrightarrow>
           evs' = filter (\<lambda>e. t \<le> e + period rl) evs)
     \<and> (\<forall>(st :: loop_state) i a w evs.
           tasks st ! i = Admission a w \<and> hit rl (now st) (events st) = (False, evs) \<longrightarrow>
           runner rl func timeout i st
             = Inr (st\<lparr>events := evs,
                      tasks := (tasks st)[i := Admission a (now st + INTERVAL)]\<rparr>))
     \<and> (0 < amount rl \<longrightarrow> (\<exists>r st. main parse func articles limit timeout = Some (r, st)))
     \<and> (\<forall>rs st. main parse func articles limit timeout = Some (Inr rs, st) \<longrightarrow>
           length (hits st) = length articles)"
proof (intro conjI allI impI)
  fix n s
  from turns_limited[OF limited_initial, where n = n and func = func and timeout = timeout]
  show "admitted_in s (period rl) (hits (turns n rl func timeout (initial articles))) \<le> amount rl"
    by (simp add: limited_def)
next
  fix r st s
  assume "main parse func articles limit timeout = Some (r, st)"
  with rl have "run_loop rl func timeout (initial articles) = Some (r, st)"
    by (simp add: main_parsed)
  from run_loop_limited[OF this limited_initial]
  show "admitted_in s (period rl) (hits st) \<le> amount rl" by (simp add: limited_def)
next
  fix t evs evs'
  assume "hit rl t evs = (False, evs')"
  from hit_denied[OF this] show "evs' = filter (\<lambda>e. t \<le> e + period rl) evs" by simp
next
  fix st :: loop_state and i a w evs
  assume "tasks st ! i = Admission a w \<and> hit rl (now st) (events st) = (False, evs)"
  then show "runner rl func timeout i st
      = Inr (st\<lparr>events := evs, tasks := (tasks st)[i := Admission a (now st + INTERVAL)]\<rparr>)"
    by (simp add: runner_denied)
next
  assume "0 < amount rl"
  then have "articles = [] \<or> 0 < amount rl" by simp
  from main_returns[OF rl this]
  show "\<exists>r st. main parse func articles limit timeout = Some (r, st)" .
next
  fix rs st
  assume "main parse func articles limit timeout = Some (Inr rs, st)"
  with rl have "run_loop rl func timeout (initial articles) = Some (Inr rs, st)"
    by (simp add: main_parsed)
  from run_loop_admits_all[OF this] show "length (hits st) = length articles" .
qed

text \<open>
  The theorem at three articles under the rate limit \<open>1/second\<close>: the hits are admitted
  at 0, 1100 and 2200 ms.
\<close>

theorem amap_rate_limit_bound_witness:
  "rate_limit_of parse_plain (Some ''1/second'') = Some \<lparr>amount = 1, period = 1000\<rparr>
   \<and> map_option (\<lambda>(r, st). hits st)
         (main parse_plain quick [paper, review, paper] (Some ''1/second'') 500)
       = Some [2200, 1100, 0]
   \<and> admitted_in 100 1000 [2200, 1100, 0] \<le> 1
   \<and> length [2200, 1100, 0 :: nat] = length [paper, review, paper]"
proof -
  have rl: "rate_limit_of parse_plain (Some ''1/second'') = Some \<lparr>amount = 1, period = 1000\<rparr>"
    by code_simp
  have h: "map_option (\<lambda>(r, st). hits st)
         (main parse_plain quick [paper, review, paper] (Some ''1/second'') 500)
       = Some [2200, 1100, 0]" by code_simp
  have rs: "map_option (\<lambda>(r, st). r)
         (main parse_plain quick [paper, review, paper] (Some ''1/second'') 500)
       = Some (Inr [replace_origin (summarized paper) paper,
            replace_origin (summarized review) review, replace_origin (summarized paper) paper])"
    by code_simp
  note t = amap_rate_limit_bound[OF rl, of quick 500 "[paper, review, paper]"]
  from h rs obtain st where m: "main parse_plain quick [paper, review, paper] (Some ''1/second'') 500
      = Some (Inr [replace_origin (summarized paper) paper,
            replace_origin (summarized review) review, replace_origin (summarized paper) paper], st)"
    and hs: "hits st = [2200, 1100, 0]"
    by (cases "main parse_plain quick [paper, review, paper] (Some ''1/second'') 500") auto
  from t[THEN conjunct2, THEN conjunct1, rule_format, OF m, of 100] hs
  have 1: "admitted_in 100 1000 [2200, 1100, 0] \<le> 1" by simp
  from t[THEN conjunct2, THEN conjunct2, THEN conjunct2, THEN conjunct2, THEN conjunct2,
      rule_format, OF m] hs
  have 2: "length [2200, 1100, 0 :: nat] = length [paper, review, paper]" by simp
  from rl h 1 2 show ?thesis by (intro conjI)
qed






section \<open>The claims about \<open>search\<close>\<close>




text \<open>
  C10. \<open>format_text\<close> always returns a text: the input itself, with a warning logged,
  when the conversion raises, and the converted text, with nothing logged, otherwise.
\<close>

theorem format_text_never_raises:
  "(\<exists>text log. format_text latex_to_text text_like = (Inr text, log))
   \<and> (\<forall>e. latex_to_text text_like = Inl e \<longrightarrow>
         format_text latex_to_text text_like = (Inr text_like, [Warning text_like]))
   \<and> (\<forall>text. latex_to_text text_like = Inr text \<longrightarrow>
         format_text latex_to_text text_like = (Inr text, []))"
  by (cases "latex_to_text text_like") (simp_all add: format_text_def)

text \<open>
  The theorem at a converter that raises and at one that returns.
\<close>

theorem format_text_never_raises_witness:
  "broken_to_text ''$x^2'' = Inl (OtherError ''cannot parse'')
   \<and> format_text broken_to_text ''$x^2'' = (Inr ''$x^2'', [Warning ''$x^2''])
   \<and> linebreak_to_text ''x^2'' = Inr ''x^2''
   \<and> format_text linebreak_to_text ''x^2'' = (Inr ''x^2'', [])"
proof -
  have 1: "broken_to_text ''$x^2'' = Inl (OtherError ''cannot parse'')"
    by (simp add: broken_to_text_def)
  have 3: "linebreak_to_text ''x^2'' = Inr ''x^2''"
    by (simp add: linebreak_to_text_def backslash_def)
  note t = format_text_never_raises[THEN conjunct2]
  from t[of broken_to_text "''$x^2''", THEN conjunct1, rule_format, OF 1]
  have 2: "format_text broken_to_text ''$x^2'' = (Inr ''$x^2'', [Warning ''$x^2''])" .
  from t[of linebreak_to_text "''x^2''", THEN conjunct2, rule_format, OF 3]
  have 4: "format_text linebreak_to_text ''x^2'' = (Inr ''x^2'', [])" .
  from 1 2 3 4 show ?thesis by (intro conjI)
qed

end
